theory Spec2Isabelle
  imports Main "HOL-Library.Monad_Syntax"
begin

section \<open>The plain binary search tree (BinarySearchTree.cpp)\<close>

text \<open>
  A \<^verbatim>\<open>Node*\<close> is either \<^verbatim>\<open>nullptr\<close> or points to a node that owns its two
  subtrees; no node is ever shared, so a pointer is modelled by the tree it points to.
  The fields are \<^verbatim>\<open>data\<close>, \<^verbatim>\<open>left\<close>, \<^verbatim>\<open>right\<close>, in the order of the struct.
  Keys are C++ \<^verbatim>\<open>int\<close>s; the code only compares them, so they are modelled by
  \<^typ>\<open>int\<close>. A dereference of \<^verbatim>\<open>nullptr\<close> is the result \<^term>\<open>None\<close>.
\<close>

datatype bst_node = BNull | BNode int bst_node bst_node

fun bst_insert :: "bst_node \<Rightarrow> int \<Rightarrow> bst_node" where
  "bst_insert BNull x = BNode x BNull BNull"
| "bst_insert (BNode d l r) x =
     (if x < d then BNode d (bst_insert l x) r
      else if x > d then BNode d l (bst_insert r x)
      else BNode d l r)"

text \<open>The loop of \<^verbatim>\<open>min_value_node\<close>: go left while there is a left child.\<close>

fun bst_min_value_node :: "bst_node \<Rightarrow> bst_node" where
  "bst_min_value_node BNull = BNull"
| "bst_min_value_node (BNode d BNull r) = BNode d BNull r"
| "bst_min_value_node (BNode d (BNode ld ll lr) r) = bst_min_value_node (BNode ld ll lr)"

fun bst_data_of :: "bst_node \<Rightarrow> int option" where
  "bst_data_of BNull = None"
| "bst_data_of (BNode d l r) = Some d"

fun bst_remove :: "bst_node \<Rightarrow> int \<Rightarrow> bst_node option" where
  "bst_remove BNull x = Some BNull"
| "bst_remove (BNode d l r) x =
     (if x < d then do { l' \<leftarrow> bst_remove l x; Some (BNode d l' r) }
      else if x > d then do { r' \<leftarrow> bst_remove r x; Some (BNode d l r') }
      else if l = BNull then Some r
      else if r = BNull then Some l
      else do {
        m \<leftarrow> bst_data_of (bst_min_value_node r);
        r' \<leftarrow> bst_remove r m;
        Some (BNode m l r')
      })"

fun bst_search :: "bst_node \<Rightarrow> int \<Rightarrow> bst_node" where
  "bst_search BNull x = BNull"
| "bst_search (BNode d l r) x =
     (if d = x then BNode d l r
      else if x < d then bst_search l x
      else bst_search r x)"

text \<open>The three printing traversals, as the sequence of keys they print.\<close>

fun bst_in_order :: "bst_node \<Rightarrow> int list" where
  "bst_in_order BNull = []"
| "bst_in_order (BNode d l r) = bst_in_order l @ [d] @ bst_in_order r"

fun bst_pre_order :: "bst_node \<Rightarrow> int list" where
  "bst_pre_order BNull = []"
| "bst_pre_order (BNode d l r) = [d] @ bst_pre_order l @ bst_pre_order r"

fun bst_post_order :: "bst_node \<Rightarrow> int list" where
  "bst_post_order BNull = []"
| "bst_post_order (BNode d l r) = bst_post_order l @ bst_post_order r @ [d]"

section \<open>The self-balancing tree (SelfBalancingBinaryTree.cpp)\<close>

text \<open>
  The node has a fourth field, the stored \<^verbatim>\<open>height\<close>. The fields are
  \<^verbatim>\<open>data\<close>, \<^verbatim>\<open>left\<close>, \<^verbatim>\<open>right\<close>, \<^verbatim>\<open>height\<close>. Heights are C++ \<^verbatim>\<open>int\<close>s that
  are only incremented by one per level, so they are modelled by \<^typ>\<open>int\<close>.
\<close>

datatype avl_node = ANull | ANode int avl_node avl_node int

fun height :: "avl_node \<Rightarrow> int" where
  "height ANull = 0"
| "height (ANode d l r h) = h"

fun balance_factor :: "avl_node \<Rightarrow> int" where
  "balance_factor ANull = 0"
| "balance_factor (ANode d l r h) = height l - height r"

text \<open>Field reads and writes through a pointer; through \<^verbatim>\<open>nullptr\<close> they fail.\<close>

fun data_of :: "avl_node \<Rightarrow> int option" where
  "data_of ANull = None"
| "data_of (ANode d l r h) = Some d"

fun left_of :: "avl_node \<Rightarrow> avl_node option" where
  "left_of ANull = None"
| "left_of (ANode d l r h) = Some l"

fun right_of :: "avl_node \<Rightarrow> avl_node option" where
  "right_of ANull = None"
| "right_of (ANode d l r h) = Some r"

fun set_left :: "avl_node \<Rightarrow> avl_node \<Rightarrow> avl_node option" where
  "set_left ANull l' = None"
| "set_left (ANode d l r h) l' = Some (ANode d l' r h)"

fun set_right :: "avl_node \<Rightarrow> avl_node \<Rightarrow> avl_node option" where
  "set_right ANull r' = None"
| "set_right (ANode d l r h) r' = Some (ANode d l r' h)"

fun update_height :: "avl_node \<Rightarrow> avl_node option" where
  "update_height ANull = None"
| "update_height (ANode d l r h) = Some (ANode d l r (1 + max (height l) (height r)))"

text \<open>
  \<^verbatim>\<open>rotate_right(node)\<close> reads \<^verbatim>\<open>node->left->right\<close>: it fails when \<^verbatim>\<open>node->left\<close>
  is absent. The node's height is recomputed first, then the promoted node's.
\<close>

definition rotate_right :: "avl_node \<Rightarrow> avl_node option" where
  "rotate_right node = do {
     new_root \<leftarrow> left_of node;
     new_root_right \<leftarrow> right_of new_root;
     node1 \<leftarrow> set_left node new_root_right;
     node2 \<leftarrow> update_height node1;
     new_root1 \<leftarrow> set_right new_root node2;
     update_height new_root1
   }"

definition rotate_left :: "avl_node \<Rightarrow> avl_node option" where
  "rotate_left node = do {
     new_root \<leftarrow> right_of node;
     new_root_left \<leftarrow> left_of new_root;
     node1 \<leftarrow> set_right node new_root_left;
     node2 \<leftarrow> update_height node1;
     new_root1 \<leftarrow> set_left new_root node2;
     update_height new_root1
   }"

text \<open>
  The second half of the recursive \<^verbatim>\<open>insert\<close> (lines 122 to 154), which both
  descending branches reach: the height update and the four rotation cases, tested in the
  order of the source. \<^verbatim>\<open>&&\<close> evaluates its right operand only when the left one holds.
\<close>

definition insert_rebalance :: "avl_node \<Rightarrow> int \<Rightarrow> avl_node option" where
  "insert_rebalance node0 x = do {
     node \<leftarrow> update_height node0;
     let balance = balance_factor node;
     left_left \<leftarrow> (if balance > 1
                   then do { l \<leftarrow> left_of node; ld \<leftarrow> data_of l; Some (x < ld) }
                   else Some False);
     if left_left then rotate_right node
     else do {
       right_right \<leftarrow> (if balance < -1
                       then do { r \<leftarrow> right_of node; rd \<leftarrow> data_of r; Some (x > rd) }
                       else Some False);
       if right_right then rotate_left node
       else do {
         left_right \<leftarrow> (if balance > 1
                        then do { l \<leftarrow> left_of node; ld \<leftarrow> data_of l; Some (x > ld) }
                        else Some False);
         if left_right then do {
           l \<leftarrow> left_of node;
           l' \<leftarrow> rotate_left l;
           node' \<leftarrow> set_left node l';
           rotate_right node'
         }
         else do {
           right_left \<leftarrow> (if balance < -1
                          then do { r \<leftarrow> right_of node; rd \<leftarrow> data_of r; Some (x < rd) }
                          else Some False);
           if right_left then do {
             r \<leftarrow> right_of node;
             r' \<leftarrow> rotate_right r;
             node' \<leftarrow> set_right node r';
             rotate_left node'
           }
           else Some node
         }
       }
     }
   }"

fun avl_insert :: "avl_node \<Rightarrow> int \<Rightarrow> avl_node option" where
  "avl_insert ANull x = Some (ANode x ANull ANull 1)"
| "avl_insert (ANode d l r h) x =
     (if x < d then do { l' \<leftarrow> avl_insert l x; insert_rebalance (ANode d l' r h) x }
      else if x > d then do { r' \<leftarrow> avl_insert r x; insert_rebalance (ANode d l r' h) x }
      else Some (ANode d l r h))"

text \<open>
  The second half of the recursive \<^verbatim>\<open>remove\<close> (lines 203 to 238): nothing to do for
  an absent node; otherwise the height update and the four cases, chosen by the balance
  factor of the taller child (\<^verbatim>\<open>balance_factor\<close> accepts \<^verbatim>\<open>nullptr\<close>).
\<close>

definition remove_rebalance :: "avl_node \<Rightarrow> avl_node option" where
  "remove_rebalance node0 =
     (if node0 = ANull then Some ANull
      else do {
        node \<leftarrow> update_height node0;
        let balance = balance_factor node;
        l \<leftarrow> left_of node;
        r \<leftarrow> right_of node;
        if balance > 1 \<and> balance_factor l \<ge> 0 then rotate_right node
        else if balance > 1 \<and> balance_factor l < 0 then do {
          l' \<leftarrow> rotate_left l;
          node' \<leftarrow> set_left node l';
          rotate_right node'
        }
        else if balance < -1 \<and> balance_factor r \<le> 0 then rotate_left node
        else if balance < -1 \<and> balance_factor r > 0 then do {
          r' \<leftarrow> rotate_right r;
          node' \<leftarrow> set_right node r';
          rotate_left node'
        }
        else Some node
      })"

text \<open>The successor loop of \<^verbatim>\<open>remove\<close>: from \<^verbatim>\<open>temp\<close>, go left while \<^verbatim>\<open>temp->left\<close> is present.\<close>

fun leftmost :: "avl_node \<Rightarrow> avl_node option" where
  "leftmost ANull = None"
| "leftmost (ANode d ANull r h) = Some (ANode d ANull r h)"
| "leftmost (ANode d (ANode ld ll lr lh) r h) = leftmost (ANode ld ll lr lh)"

text \<open>
  On a match with at most one child, \<^verbatim>\<open>temp\<close> is the left child if present, else the
  right one. With no child the node becomes \<^verbatim>\<open>nullptr\<close>; with one child the child's
  contents (all four fields) are copied over the node, so the node is then the child.
\<close>

fun avl_remove :: "avl_node \<Rightarrow> int \<Rightarrow> avl_node option" where
  "avl_remove ANull x = Some ANull"
| "avl_remove (ANode d l r h) x =
     (if x < d then do { l' \<leftarrow> avl_remove l x; remove_rebalance (ANode d l' r h) }
      else if x > d then do { r' \<leftarrow> avl_remove r x; remove_rebalance (ANode d l r' h) }
      else if l = ANull \<or> r = ANull then
        (let temp = (if l \<noteq> ANull then l else r)
         in if temp = ANull then remove_rebalance ANull else remove_rebalance temp)
      else do {
        temp \<leftarrow> leftmost r;
        m \<leftarrow> data_of temp;
        r' \<leftarrow> avl_remove r m;
        remove_rebalance (ANode m l r' h)
      })"

fun avl_search :: "avl_node \<Rightarrow> int \<Rightarrow> avl_node" where
  "avl_search ANull x = ANull"
| "avl_search (ANode d l r h) x =
     (if d = x then ANode d l r h
      else if x < d then avl_search l x
      else avl_search r x)"

fun in_order :: "avl_node \<Rightarrow> int list" where
  "in_order ANull = []"
| "in_order (ANode d l r h) = in_order l @ [d] @ in_order r"

fun pre_order :: "avl_node \<Rightarrow> int list" where
  "pre_order ANull = []"
| "pre_order (ANode d l r h) = [d] @ pre_order l @ pre_order r"

fun post_order :: "avl_node \<Rightarrow> int list" where
  "post_order ANull = []"
| "post_order (ANode d l r h) = post_order l @ post_order r @ [d]"

section \<open>The public interface: a root pointer and the operations on it\<close>

text \<open>
  Both classes hold one \<^verbatim>\<open>root\<close> pointer, \<^verbatim>\<open>nullptr\<close> after the default constructor.
  \<^verbatim>\<open>insert(data)\<close> and \<^verbatim>\<open>remove(data)\<close> store the result of the recursive function
  back into \<^verbatim>\<open>root\<close>; \<^verbatim>\<open>search(data)\<close> leaves it alone.
\<close>

datatype op = Insert int | Remove int | Search int

fun bst_apply :: "bst_node \<Rightarrow> op \<Rightarrow> bst_node option" where
  "bst_apply root (Insert x) = Some (bst_insert root x)"
| "bst_apply root (Remove x) = bst_remove root x"
| "bst_apply root (Search x) = Some root"

fun bst_run :: "bst_node \<Rightarrow> op list \<Rightarrow> bst_node option" where
  "bst_run root [] = Some root"
| "bst_run root (p # ps) = (case bst_apply root p of None \<Rightarrow> None | Some root' \<Rightarrow> bst_run root' ps)"

fun avl_apply :: "avl_node \<Rightarrow> op \<Rightarrow> avl_node option" where
  "avl_apply root (Insert x) = avl_insert root x"
| "avl_apply root (Remove x) = avl_remove root x"
| "avl_apply root (Search x) = Some root"

fun avl_run :: "avl_node \<Rightarrow> op list \<Rightarrow> avl_node option" where
  "avl_run root [] = Some root"
| "avl_run root (p # ps) = (case avl_apply root p of None \<Rightarrow> None | Some root' \<Rightarrow> avl_run root' ps)"

text \<open>
  What a caller can observe: after each operation the in-order sequence of the tree, and
  for a search whether a node was returned and which key it holds.
\<close>

datatype search_result = NotFound | Found int

fun bst_found :: "bst_node \<Rightarrow> search_result" where
  "bst_found BNull = NotFound"
| "bst_found (BNode d l r) = Found d"

fun avl_found :: "avl_node \<Rightarrow> search_result" where
  "avl_found ANull = NotFound"
| "avl_found (ANode d l r h) = Found d"

fun bst_answer :: "bst_node \<Rightarrow> op \<Rightarrow> search_result option" where
  "bst_answer root (Search x) = Some (bst_found (bst_search root x))"
| "bst_answer root (Insert x) = None"
| "bst_answer root (Remove x) = None"

fun avl_answer :: "avl_node \<Rightarrow> op \<Rightarrow> search_result option" where
  "avl_answer root (Search x) = Some (avl_found (avl_search root x))"
| "avl_answer root (Insert x) = None"
| "avl_answer root (Remove x) = None"

fun bst_trace :: "bst_node \<Rightarrow> op list \<Rightarrow> (int list \<times> search_result option) list option" where
  "bst_trace root [] = Some []"
| "bst_trace root (p # ps) =
     (case bst_apply root p of None \<Rightarrow> None
      | Some root' \<Rightarrow>
         (case bst_trace root' ps of None \<Rightarrow> None
          | Some rest \<Rightarrow> Some ((bst_in_order root', bst_answer root p) # rest)))"

fun avl_trace :: "avl_node \<Rightarrow> op list \<Rightarrow> (int list \<times> search_result option) list option" where
  "avl_trace root [] = Some []"
| "avl_trace root (p # ps) =
     (case avl_apply root p of None \<Rightarrow> None
      | Some root' \<Rightarrow>
         (case avl_trace root' ps of None \<Rightarrow> None
          | Some rest \<Rightarrow> Some ((in_order root', avl_answer root p) # rest)))"

section \<open>The invariants of the data model\<close>

text \<open>Ordering: at every node the keys on the left are smaller and those on the right larger.\<close>

fun bst_ordered :: "bst_node \<Rightarrow> bool" where
  "bst_ordered BNull = True"
| "bst_ordered (BNode d l r) =
     ((\<forall>k \<in> set (bst_in_order l). k < d) \<and> (\<forall>k \<in> set (bst_in_order r). d < k)
      \<and> bst_ordered l \<and> bst_ordered r)"

fun ordered :: "avl_node \<Rightarrow> bool" where
  "ordered ANull = True"
| "ordered (ANode d l r h) =
     ((\<forall>k \<in> set (in_order l). k < d) \<and> (\<forall>k \<in> set (in_order r). d < k)
      \<and> ordered l \<and> ordered r)"

text \<open>The true height of a tree (the number of nodes on a longest path down), and all its nodes.\<close>

fun tree_height :: "avl_node \<Rightarrow> int" where
  "tree_height ANull = 0"
| "tree_height (ANode d l r h) = 1 + max (tree_height l) (tree_height r)"

fun nodes :: "avl_node \<Rightarrow> avl_node list" where
  "nodes ANull = []"
| "nodes (ANode d l r h) = ANode d l r h # nodes l @ nodes r"

text \<open>
  Stored heights are right and differ by at most one between siblings, at every node.
\<close>

fun avl_inv :: "avl_node \<Rightarrow> bool" where
  "avl_inv ANull = True"
| "avl_inv (ANode d l r h) =
     (h = 1 + max (height l) (height r) \<and> height l - height r \<le> 1 \<and> height r - height l \<le> 1
      \<and> avl_inv l \<and> avl_inv r)"

definition avl_valid :: "avl_node \<Rightarrow> bool" where
  "avl_valid t = (ordered t \<and> avl_inv t)"

text \<open>
  How the height of \<open>t'\<close>, the tree after inserting \<open>x\<close> into \<open>t\<close>, relates to that
  of \<open>t\<close>: it is the same, or one more; and when a non-empty tree got higher, its root
  is the old root and the side \<open>x\<close> went to is the higher one by one.
\<close>

definition grew :: "avl_node \<Rightarrow> int \<Rightarrow> avl_node \<Rightarrow> bool" where
  "grew t x t' = (height t' = height t \<or>
      height t' = height t + 1 \<and>
      (t = ANull \<or>
       (case t' of ANull \<Rightarrow> False
        | ANode d' l' r' h' \<Rightarrow> data_of t = Some d' \<and>
            (x < d' \<and> height l' = height r' + 1 \<or> d' < x \<and> height r' = height l' + 1))))"

section \<open>Positions in the plain tree\<close>

text \<open>
  A position is the path from the root: left or right at each step. \<open>bst_key_at\<close> gives
  the key of the node at a position, if a node is there; \<open>bst_descent\<close> is the path the
  recursive \<^verbatim>\<open>insert\<close> follows, by its two comparisons.
\<close>

datatype dir = L | R

fun bst_subtree :: "bst_node \<Rightarrow> dir list \<Rightarrow> bst_node option" where
  "bst_subtree t [] = Some t"
| "bst_subtree BNull (p # ps) = None"
| "bst_subtree (BNode d l r) (L # ps) = bst_subtree l ps"
| "bst_subtree (BNode d l r) (R # ps) = bst_subtree r ps"

fun bst_key_at :: "bst_node \<Rightarrow> dir list \<Rightarrow> int option" where
  "bst_key_at BNull ps = None"
| "bst_key_at (BNode d l r) [] = Some d"
| "bst_key_at (BNode d l r) (L # ps) = bst_key_at l ps"
| "bst_key_at (BNode d l r) (R # ps) = bst_key_at r ps"

fun bst_descent :: "bst_node \<Rightarrow> int \<Rightarrow> dir list" where
  "bst_descent BNull x = []"
| "bst_descent (BNode d l r) x =
     (if x < d then L # bst_descent l x
      else if x > d then R # bst_descent r x
      else [])"

section \<open>Counting the rotations of an insertion\<close>

text \<open>
  \<open>insert_rebalance_counted\<close> and \<open>avl_insert_counted\<close> are \<open>insert_rebalance\<close> and
  \<open>avl_insert\<close> with a counter beside the tree: every call of \<open>rotate_right\<close> or
  \<open>rotate_left\<close> that returns adds one.
\<close>

definition insert_rebalance_counted :: "avl_node \<Rightarrow> int \<Rightarrow> (avl_node \<times> nat) option" where
  "insert_rebalance_counted node0 x = do {
     node \<leftarrow> update_height node0;
     let balance = balance_factor node;
     left_left \<leftarrow> (if balance > 1
                   then do { l \<leftarrow> left_of node; ld \<leftarrow> data_of l; Some (x < ld) }
                   else Some False);
     if left_left then do { t \<leftarrow> rotate_right node; Some (t, 1) }
     else do {
       right_right \<leftarrow> (if balance < -1
                       then do { r \<leftarrow> right_of node; rd \<leftarrow> data_of r; Some (x > rd) }
                       else Some False);
       if right_right then do { t \<leftarrow> rotate_left node; Some (t, 1) }
       else do {
         left_right \<leftarrow> (if balance > 1
                        then do { l \<leftarrow> left_of node; ld \<leftarrow> data_of l; Some (x > ld) }
                        else Some False);
         if left_right then do {
           l \<leftarrow> left_of node;
           l' \<leftarrow> rotate_left l;
           node' \<leftarrow> set_left node l';
           t \<leftarrow> rotate_right node';
           Some (t, 2)
         }
         else do {
           right_left \<leftarrow> (if balance < -1
                          then do { r \<leftarrow> right_of node; rd \<leftarrow> data_of r; Some (x < rd) }
                          else Some False);
           if right_left then do {
             r \<leftarrow> right_of node;
             r' \<leftarrow> rotate_right r;
             node' \<leftarrow> set_right node r';
             t \<leftarrow> rotate_left node';
             Some (t, 2)
           }
           else Some (node, 0)
         }
       }
     }
   }"

fun avl_insert_counted :: "avl_node \<Rightarrow> int \<Rightarrow> (avl_node \<times> nat) option" where
  "avl_insert_counted ANull x = Some (ANode x ANull ANull 1, 0)"
| "avl_insert_counted (ANode d l r h) x =
     (if x < d then do {
        (l', n) \<leftarrow> avl_insert_counted l x;
        (t, m) \<leftarrow> insert_rebalance_counted (ANode d l' r h) x;
        Some (t, n + m)
      }
      else if x > d then do {
        (r', n) \<leftarrow> avl_insert_counted r x;
        (t, m) \<leftarrow> insert_rebalance_counted (ANode d l r' h) x;
        Some (t, n + m)
      }
      else Some (ANode d l r h, 0))"

text \<open>The rotations of a run of operations that are all insertions of the given keys.\<close>

fun avl_inserts_counted :: "avl_node \<Rightarrow> int list \<Rightarrow> (avl_node \<times> nat) option" where
  "avl_inserts_counted root [] = Some (root, 0)"
| "avl_inserts_counted root (x # xs) =
     (case avl_insert_counted root x of None \<Rightarrow> None
      | Some (root', n) \<Rightarrow>
         (case avl_inserts_counted root' xs of None \<Rightarrow> None
          | Some (root'', m) \<Rightarrow> Some (root'', n + m)))"

section \<open>The abstract state: the set of stored keys\<close>

fun keys_apply :: "int set \<Rightarrow> op \<Rightarrow> int set" where
  "keys_apply S (Insert x) = insert x S"
| "keys_apply S (Remove x) = S - {x}"
| "keys_apply S (Search x) = S"

fun keys_run :: "int set \<Rightarrow> op list \<Rightarrow> int set" where
  "keys_run S [] = S"
| "keys_run S (p # ps) = keys_run (keys_apply S p) ps"

section \<open>Rotations and rebalancing, case by case\<close>

lemma rotate_right_Node [simp]:
  "rotate_right (ANode d (ANode ld ll lr lh) r h) =
     Some (ANode ld ll (ANode d lr r (1 + max (height lr) (height r)))
        (1 + max (height ll) (1 + max (height lr) (height r))))"
  by (simp add: rotate_right_def)

lemma rotate_right_None [simp]:
  "rotate_right ANull = None" "rotate_right (ANode d ANull r h) = None"
  by (simp_all add: rotate_right_def)

lemma rotate_left_Node [simp]:
  "rotate_left (ANode d l (ANode rd rl rr rh) h) =
     Some (ANode rd (ANode d l rl (1 + max (height l) (height rl))) rr
        (1 + max (1 + max (height l) (height rl)) (height rr)))"
  by (simp add: rotate_left_def)

lemma rotate_left_None [simp]:
  "rotate_left ANull = None" "rotate_left (ANode d l ANull h) = None"
  by (simp_all add: rotate_left_def)

lemma insert_rebalance_Node:
  "insert_rebalance (ANode d l r h) x =
     (let node = ANode d l r (1 + max (height l) (height r)) in
      if height l - height r > 1 then
        (case l of ANull \<Rightarrow> None
         | ANode ld ll lr lh \<Rightarrow>
             if x < ld then rotate_right node
             else if x > ld then
               rotate_left l \<bind> (\<lambda>l'. rotate_right (ANode d l' r (1 + max (height l) (height r))))
             else Some node)
      else if height l - height r < -1 then
        (case r of ANull \<Rightarrow> None
         | ANode rd rl rr rh \<Rightarrow>
             if x > rd then rotate_left node
             else if x < rd then
               rotate_right r \<bind> (\<lambda>r'. rotate_left (ANode d l r' (1 + max (height l) (height r))))
             else Some node)
      else Some node)"
  by (cases l; cases r) (auto simp: insert_rebalance_def Let_def)

lemma remove_rebalance_Node:
  "remove_rebalance (ANode d l r h) =
     (let node = ANode d l r (1 + max (height l) (height r)) in
      if height l - height r > 1 then
        (if balance_factor l \<ge> 0 then rotate_right node
         else rotate_left l \<bind> (\<lambda>l'. rotate_right (ANode d l' r (1 + max (height l) (height r)))))
      else if height l - height r < -1 then
        (if balance_factor r \<le> 0 then rotate_left node
         else rotate_right r \<bind> (\<lambda>r'. rotate_left (ANode d l r' (1 + max (height l) (height r)))))
      else Some node)"
  by (auto simp: remove_rebalance_def Let_def)

lemma remove_rebalance_Null [simp]: "remove_rebalance ANull = Some ANull"
  by (simp add: remove_rebalance_def)

section \<open>Insertion and removal keep the heights right and the tree balanced\<close>

lemma avl_inv_height_nonneg: "avl_inv t \<Longrightarrow> 0 \<le> height t"
  by (induction t) auto

lemma avl_inv_height_pos: "avl_inv (ANode d l r h) \<Longrightarrow> 1 \<le> h"
  using avl_inv_height_nonneg[of l] avl_inv_height_nonneg[of r] by auto

lemma height_0_Null: "avl_inv t \<Longrightarrow> height t = 0 \<Longrightarrow> t = ANull"
  by (cases t) (use avl_inv_height_pos in fastforce)+

lemma insert_rebalance_left:
  assumes "avl_inv (ANode d l r h)" "avl_inv l'" "grew l x l'" "x < d"
  shows "\<exists>t'. insert_rebalance (ANode d l' r h) x = Some t' \<and> avl_inv t' \<and> grew (ANode d l r h) x t'"
proof -
  have hl: "0 \<le> height l" and hr: "0 \<le> height r" and hl': "0 \<le> height l'"
    using assms avl_inv_height_nonneg by auto
  consider (same) "height l' = height l"
    | (leaf) "height l' = height l + 1" "l = ANull"
    | (node) "height l' = height l + 1" "l \<noteq> ANull"
    using assms(3) unfolding grew_def by blast
  then show ?thesis
  proof cases
    case same
    then show ?thesis using assms by (auto simp: insert_rebalance_Node grew_def)
  next
    case leaf
    then show ?thesis using assms hr by (auto simp: insert_rebalance_Node grew_def)
  next
    case node
    then obtain ld ll lr lh where l': "l' = ANode ld ll lr lh"
       and d: "data_of l = Some ld"
       and side: "x < ld \<and> height ll = height lr + 1 \<or> ld < x \<and> height lr = height ll + 1"
      using assms(3) by (auto simp: grew_def split: avl_node.splits)
    show ?thesis
    proof (cases "height l' - height r > 1")
      case False
      then show ?thesis using assms node l' by (auto simp: insert_rebalance_Node grew_def)
    next
      case True
      show ?thesis
      proof (cases "x < ld")
        case True
        then show ?thesis using assms node l' side \<open>height l' - height r > 1\<close>
          by (auto simp: insert_rebalance_Node grew_def)
      next
        case False
        with side have gt: "ld < x" and hs: "height lr = height ll + 1" by auto
        have "avl_inv lr" "avl_inv ll" using assms(2) l' by auto
        then have "0 \<le> height ll" using avl_inv_height_nonneg by auto
        then have "lr \<noteq> ANull" using hs by auto
        then obtain md ml mr mh where lr: "lr = ANode md ml mr mh" by (cases lr) auto
        show ?thesis using assms node l' gt hs lr \<open>height l' - height r > 1\<close>
          by (auto simp: insert_rebalance_Node grew_def)
      qed
    qed
  qed
qed

lemma insert_rebalance_right:
  assumes "avl_inv (ANode d l r h)" "avl_inv r'" "grew r x r'" "d < x"
  shows "\<exists>t'. insert_rebalance (ANode d l r' h) x = Some t' \<and> avl_inv t' \<and> grew (ANode d l r h) x t'"
proof -
  have hl: "0 \<le> height l" and hr: "0 \<le> height r" and hr': "0 \<le> height r'"
    using assms avl_inv_height_nonneg by auto
  consider (same) "height r' = height r"
    | (leaf) "height r' = height r + 1" "r = ANull"
    | (node) "height r' = height r + 1" "r \<noteq> ANull"
    using assms(3) unfolding grew_def by blast
  then show ?thesis
  proof cases
    case same
    then show ?thesis using assms by (auto simp: insert_rebalance_Node grew_def)
  next
    case leaf
    then show ?thesis using assms hl by (auto simp: insert_rebalance_Node grew_def)
  next
    case node
    then obtain rd rl rr rh where r': "r' = ANode rd rl rr rh"
       and d: "data_of r = Some rd"
       and side: "x < rd \<and> height rl = height rr + 1 \<or> rd < x \<and> height rr = height rl + 1"
      using assms(3) by (auto simp: grew_def split: avl_node.splits)
    show ?thesis
    proof (cases "height l - height r' < -1")
      case False
      then show ?thesis using assms node r' by (auto simp: insert_rebalance_Node grew_def)
    next
      case True
      show ?thesis
      proof (cases "rd < x")
        case True
        then show ?thesis using assms node r' side \<open>height l - height r' < -1\<close>
          by (auto simp: insert_rebalance_Node grew_def)
      next
        case False
        with side have lt: "x < rd" and hs: "height rl = height rr + 1" by auto
        have "avl_inv rl" "avl_inv rr" using assms(2) r' by auto
        then have "0 \<le> height rr" using avl_inv_height_nonneg by auto
        then have "rl \<noteq> ANull" using hs by auto
        then obtain md ml mr mh where rl: "rl = ANode md ml mr mh" by (cases rl) auto
        show ?thesis using assms node r' lt hs rl \<open>height l - height r' < -1\<close>
          by (auto simp: insert_rebalance_Node grew_def)
      qed
    qed
  qed
qed

lemma grew_refl: "grew t x t"
  by (simp add: grew_def)

lemma avl_insert_inv:
  "avl_inv t \<Longrightarrow> \<exists>t'. avl_insert t x = Some t' \<and> avl_inv t' \<and> grew t x t'"
proof (induction t)
  case ANull
  then show ?case by (simp add: grew_def)
next
  case (ANode d l r h)
  consider (lt) "x < d" | (gt) "d < x" | (eq) "x = d" by linarith
  then show ?case
  proof cases
    case lt
    from ANode obtain l' where l': "avl_insert l x = Some l'" "avl_inv l'" "grew l x l'" by auto
    from insert_rebalance_left[OF ANode.prems l'(2,3) lt] l'(1) lt show ?thesis by simp
  next
    case gt
    from ANode obtain r' where r': "avl_insert r x = Some r'" "avl_inv r'" "grew r x r'" by auto
    from insert_rebalance_right[OF ANode.prems r'(2,3) gt] r'(1) gt show ?thesis by simp
  next
    case eq
    then show ?thesis using ANode.prems by (simp add: grew_refl)
  qed
qed

lemma remove_rebalance_inv:
  assumes "avl_inv l" "avl_inv r" "height l - height r \<le> 2" "height r - height l \<le> 2"
  shows "\<exists>t'. remove_rebalance (ANode d l r h) = Some t' \<and> avl_inv t' \<and>
           (height t' = 1 + max (height l) (height r) \<or>
            (height t' = max (height l) (height r) \<and> \<not> (height l - height r \<le> 1 \<and> height r - height l \<le> 1)))"
proof -
  have hl: "0 \<le> height l" and hr: "0 \<le> height r"
    using assms avl_inv_height_nonneg by auto
  consider (ok) "height l - height r \<le> 1" "height r - height l \<le> 1"
    | (left) "height l = height r + 2" | (right) "height r = height l + 2"
    using assms by linarith
  then show ?thesis
  proof cases
    case ok
    then show ?thesis using assms by (auto simp: remove_rebalance_Node)
  next
    case left
    then obtain ld ll lr lh where l: "l = ANode ld ll lr lh" using hr by (cases l) auto
    show ?thesis
    proof (cases "0 \<le> balance_factor l")
      case True
      then show ?thesis using assms left l by (auto simp: remove_rebalance_Node)
    next
      case False
      have "0 \<le> height ll" using assms(1) l avl_inv_height_nonneg by auto
      then obtain md ml mr mh where lr: "lr = ANode md ml mr mh" using False l by (cases lr) auto
      show ?thesis using assms left l lr False by (auto simp: remove_rebalance_Node)
    qed
  next
    case right
    then obtain rd rl rr rh where r: "r = ANode rd rl rr rh" using hl by (cases r) auto
    show ?thesis
    proof (cases "balance_factor r \<le> 0")
      case True
      then show ?thesis using assms right r by (auto simp: remove_rebalance_Node)
    next
      case False
      have "0 \<le> height rr" using assms(2) r avl_inv_height_nonneg by auto
      then obtain md ml mr mh where rl: "rl = ANode md ml mr mh" using False r by (cases rl) auto
      show ?thesis using assms right r rl False by (auto simp: remove_rebalance_Node)
    qed
  qed
qed

lemma remove_rebalance_valid:
  "avl_inv t \<Longrightarrow> remove_rebalance t = Some t"
  by (cases t) (auto simp: remove_rebalance_Node)

lemma leftmost_Node: "\<exists>m ml mr mh. leftmost (ANode d l r h) = Some (ANode m ml mr mh)"
  by (induction "ANode d l r h" arbitrary: d l r h rule: leftmost.induct) auto

lemma avl_remove_inv:
  "avl_inv t \<Longrightarrow> \<exists>t'. avl_remove t x = Some t' \<and> avl_inv t' \<and>
      (height t' = height t \<or> height t' = height t - 1)"
proof (induction t arbitrary: x)
  case ANull
  then show ?case by simp
next
  case (ANode d l r h)
  have il: "avl_inv l" and ir: "avl_inv r" using ANode.prems by auto
  have hl: "0 \<le> height l" and hr: "0 \<le> height r"
    using il ir avl_inv_height_nonneg by auto
  consider (lt) "x < d" | (gt) "d < x" | (one) "x = d" "l = ANull \<or> r = ANull"
    | (two) "x = d" "l \<noteq> ANull" "r \<noteq> ANull" by fastforce
  then show ?case
  proof cases
    case lt
    from ANode.IH(1)[OF il, of x] obtain l' where l': "avl_remove l x = Some l'" "avl_inv l'"
      "height l' = height l \<or> height l' = height l - 1" by auto
    have "height l' - height r \<le> 2" "height r - height l' \<le> 2" using l'(3) ANode.prems by auto
    from remove_rebalance_inv[OF l'(2) ir this, of d h] l' lt ANode.prems
    show ?thesis by auto
  next
    case gt
    from ANode.IH(2)[OF ir, of x] obtain r' where r': "avl_remove r x = Some r'" "avl_inv r'"
      "height r' = height r \<or> height r' = height r - 1" by auto
    have "height l - height r' \<le> 2" "height r' - height l \<le> 2" using r'(3) ANode.prems by auto
    from remove_rebalance_inv[OF il r'(2) this, of d h] r' gt ANode.prems
    show ?thesis by auto
  next
    case one
    then show ?thesis using ANode.prems il ir hl hr
      by (auto simp: remove_rebalance_valid Let_def)
  next
    case two
    then obtain rd rl rr rh where r: "r = ANode rd rl rr rh" by (cases r) auto
    obtain m ml mr mh where m: "leftmost r = Some (ANode m ml mr mh)"
      using leftmost_Node r by blast
    from ANode.IH(2)[OF ir, of m] obtain r' where r': "avl_remove r m = Some r'" "avl_inv r'"
      "height r' = height r \<or> height r' = height r - 1" by auto
    have "height l - height r' \<le> 2" "height r' - height l \<le> 2" using r'(3) ANode.prems by auto
    from remove_rebalance_inv[OF il r'(2) this, of m h] r' two m ANode.prems
    show ?thesis by auto
  qed
qed

section \<open>Ordering\<close>

subsection \<open>Strictly ascending lists\<close>

lemma strict_sorted_unique:
  "sorted_wrt (<) xs \<Longrightarrow> sorted_wrt (<) ys \<Longrightarrow> set xs = set ys \<Longrightarrow> xs = (ys :: int list)"
  by (simp add: strict_sorted_iff sorted_distinct_set_unique)

lemma strict_sorted_insort:
  "sorted_wrt (<) xs \<Longrightarrow> x \<notin> set xs \<Longrightarrow> sorted_wrt (<) (insort x (xs :: int list))"
  by (simp add: strict_sorted_iff sorted_insort distinct_insort)

lemma strict_sorted_remove1:
  "sorted_wrt (<) xs \<Longrightarrow> sorted_wrt (<) (remove1 x (xs :: int list))"
  by (simp add: strict_sorted_iff sorted_remove1)

lemma strict_sorted_set_remove1:
  "sorted_wrt (<) xs \<Longrightarrow> set (remove1 x (xs :: int list)) = set xs - {x}"
  by (simp add: strict_sorted_iff)

subsection \<open>In-order sequences of the balanced tree\<close>

lemma ordered_iff_sorted: "ordered t \<longleftrightarrow> sorted_wrt (<) (in_order t)"
  by (induction t) (fastforce simp: sorted_wrt_append)+

lemma in_order_Nil: "in_order t = [] \<longleftrightarrow> t = ANull"
  by (cases t) auto

lemma in_order_rotate_right:
  assumes "rotate_right t = Some t'"
  shows "in_order t' = in_order t"
proof (cases t)
  case ANull
  then show ?thesis using assms by simp
next
  case (ANode d l r h)
  then show ?thesis using assms by (cases l) auto
qed

lemma in_order_rotate_left:
  assumes "rotate_left t = Some t'"
  shows "in_order t' = in_order t"
proof (cases t)
  case ANull
  then show ?thesis using assms by simp
next
  case (ANode d l r h)
  then show ?thesis using assms by (cases r) auto
qed

lemma in_order_insert_rebalance:
  "insert_rebalance t x = Some t' \<Longrightarrow> in_order t' = in_order t"
  by (cases t)
     (auto simp: insert_rebalance_Node insert_rebalance_def Let_def
           split: if_splits avl_node.splits bind_splits
           dest!: in_order_rotate_right in_order_rotate_left)

lemma in_order_remove_rebalance:
  "remove_rebalance t = Some t' \<Longrightarrow> in_order t' = in_order t"
  by (cases t)
     (auto simp: remove_rebalance_Node Let_def
           split: if_splits avl_node.splits bind_splits
           dest!: in_order_rotate_right in_order_rotate_left)

lemma set_avl_insert:
  "avl_insert t x = Some t' \<Longrightarrow> set (in_order t') = insert x (set (in_order t))"
proof (induction t arbitrary: t')
  case ANull
  then show ?case by auto
next
  case (ANode d l r h)
  then show ?case
    by (fastforce split: if_splits bind_splits dest!: in_order_insert_rebalance)
qed

lemma ordered_avl_insert:
  "avl_insert t x = Some t' \<Longrightarrow> ordered t \<Longrightarrow> ordered t'"
proof (induction t arbitrary: t')
  case ANull
  then show ?case by auto
next
  case (ANode d l r h)
  show ?case
  proof (cases "x < d")
    case True
    with ANode.prems obtain l' where l': "avl_insert l x = Some l'"
      and t': "insert_rebalance (ANode d l' r h) x = Some t'"
      by (auto split: bind_splits)
    have "ordered l'" using ANode.IH(1)[OF l'] ANode.prems(2) by simp
    then have "ordered (ANode d l' r h)"
      using ANode.prems(2) True set_avl_insert[OF l'] by auto
    then show ?thesis
      using in_order_insert_rebalance[OF t'] by (simp add: ordered_iff_sorted)
  next
    case False
    show ?thesis
    proof (cases "d < x")
      case True
      with ANode.prems obtain r' where r': "avl_insert r x = Some r'"
        and t': "insert_rebalance (ANode d l r' h) x = Some t'"
        by (auto split: bind_splits)
      have "ordered r'" using ANode.IH(2)[OF r'] ANode.prems(2) by simp
      then have "ordered (ANode d l r' h)"
        using ANode.prems(2) True set_avl_insert[OF r'] by auto
      then show ?thesis
        using in_order_insert_rebalance[OF t'] by (simp add: ordered_iff_sorted)
    next
      case False
      with \<open>\<not> x < d\<close> ANode.prems show ?thesis by auto
    qed
  qed
qed

lemma leftmost_in_order:
  "leftmost t = Some (ANode m ml mr mh) \<Longrightarrow> \<exists>ys. in_order t = m # ys"
proof (induction t rule: leftmost.induct)
  case 1
  then show ?case by simp
next
  case (2 d r h)
  then show ?case by simp
next
  case (3 d ld ll lr lh r h)
  then obtain ys where "in_order (ANode ld ll lr lh) = m # ys" by auto
  then have "in_order (ANode d (ANode ld ll lr lh) r h) = m # (ys @ [d] @ in_order r)"
    by simp
  then show ?case by blast
qed

lemma avl_remove_ordered_set:
  "avl_remove t x = Some t' \<Longrightarrow> ordered t \<Longrightarrow>
     ordered t' \<and> set (in_order t') = set (in_order t) - {x}"
proof (induction t arbitrary: x t')
  case ANull
  then show ?case by auto
next
  case (ANode d l r h)
  consider (lt) "x < d" | (gt) "d < x" | (one) "x = d" "l = ANull \<or> r = ANull"
    | (two) "x = d" "l \<noteq> ANull" "r \<noteq> ANull" by fastforce
  then show ?case
  proof cases
    case lt
    with ANode.prems obtain l' where l': "avl_remove l x = Some l'"
      and t': "remove_rebalance (ANode d l' r h) = Some t'"
      by (auto split: bind_splits)
    have IH: "ordered l'" "set (in_order l') = set (in_order l) - {x}"
      using ANode.IH(1)[OF l'] ANode.prems(2) by auto
    then have "ordered (ANode d l' r h)" using ANode.prems(2) by auto
    moreover have "set (in_order (ANode d l' r h)) = set (in_order (ANode d l r h)) - {x}"
      using IH ANode.prems(2) lt by auto
    ultimately show ?thesis
      using in_order_remove_rebalance[OF t'] by (simp add: ordered_iff_sorted)
  next
    case gt
    with ANode.prems obtain r' where r': "avl_remove r x = Some r'"
      and t': "remove_rebalance (ANode d l r' h) = Some t'"
      by (auto split: bind_splits)
    have IH: "ordered r'" "set (in_order r') = set (in_order r) - {x}"
      using ANode.IH(2)[OF r'] ANode.prems(2) by auto
    then have "ordered (ANode d l r' h)" using ANode.prems(2) by auto
    moreover have "set (in_order (ANode d l r' h)) = set (in_order (ANode d l r h)) - {x}"
      using IH ANode.prems(2) gt by auto
    ultimately show ?thesis
      using in_order_remove_rebalance[OF t'] by (simp add: ordered_iff_sorted)
  next
    case one
    then have "remove_rebalance (if l \<noteq> ANull then l else r) = Some t'"
      using ANode.prems(1) by (auto simp: Let_def split: if_splits)
    from in_order_remove_rebalance[OF this]
    have eq: "in_order t' = in_order (if l \<noteq> ANull then l else r)" .
    have parts: "ordered l" "ordered r" "\<forall>k \<in> set (in_order l). k < d"
      "\<forall>k \<in> set (in_order r). d < k"
      using ANode.prems(2) by auto
    have "ordered t'"
      using eq parts(1,2) ordered_iff_sorted[of t'] ordered_iff_sorted[of l] ordered_iff_sorted[of r]
      by (simp split: if_splits)
    moreover have "set (in_order t') = set (in_order (ANode d l r h)) - {x}"
      using eq parts(3,4) one by (auto split: if_splits)
    ultimately show ?thesis by simp
  next
    case two
    with ANode.prems(1) obtain temp m r' where temp: "leftmost r = Some temp"
      and m: "data_of temp = Some m" and r': "avl_remove r m = Some r'"
      and t': "remove_rebalance (ANode m l r' h) = Some t'"
      by (auto split: bind_splits)
    obtain ml mr mh where "temp = ANode m ml mr mh" using m by (cases temp) auto
    with leftmost_in_order temp obtain ys where ys: "in_order r = m # ys" by blast
    have parts: "ordered l" "ordered r" "\<forall>k \<in> set (in_order l). k < d"
      "\<forall>k \<in> set (in_order r). d < k"
      using ANode.prems(2) by auto
    have IH: "ordered r'" "set (in_order r') = set (in_order r) - {m}"
      using ANode.IH(2)[OF r'] parts(2) by auto
    have sr: "sorted_wrt (<) (m # ys)" using parts(2) ys ordered_iff_sorted[of r] by simp
    then have r'set: "set (in_order r') = set ys" using IH(2) ys by auto
    have "d < m" using parts(4) ys by simp
    have "ordered (ANode m l r' h)"
      using parts(1,3) IH(1) r'set sr \<open>d < m\<close> by fastforce
    moreover have "set (in_order (ANode m l r' h)) = set (in_order (ANode d l r h)) - {x}"
      using r'set ys parts(3,4) two(1) sr by auto
    ultimately show ?thesis
      using in_order_remove_rebalance[OF t'] by (simp add: ordered_iff_sorted)
  qed
qed

subsection \<open>In-order sequences of the plain tree\<close>

lemma bst_ordered_iff_sorted: "bst_ordered t \<longleftrightarrow> sorted_wrt (<) (bst_in_order t)"
  by (induction t) (fastforce simp: sorted_wrt_append)+

lemma bst_in_order_Nil: "bst_in_order t = [] \<longleftrightarrow> t = BNull"
  by (cases t) auto

lemma set_bst_insert: "set (bst_in_order (bst_insert t x)) = insert x (set (bst_in_order t))"
  by (induction t) auto

lemma bst_ordered_insert: "bst_ordered t \<Longrightarrow> bst_ordered (bst_insert t x)"
  by (induction t) (auto simp: set_bst_insert)

lemma bst_insert_present: "bst_ordered t \<Longrightarrow> x \<in> set (bst_in_order t) \<Longrightarrow> bst_insert t x = t"
  by (induction t) force+

lemma bst_min_value_node_in_order:
  "\<exists>m ml mr ys. bst_min_value_node (BNode d l r) = BNode m ml mr \<and>
      bst_in_order (BNode d l r) = m # ys"
proof (induction "BNode d l r" arbitrary: d l r rule: bst_min_value_node.induct)
  case (2 d r)
  then show ?case by simp
next
  case (3 d ld ll lr r)
  then obtain m ml mr ys where "bst_min_value_node (BNode ld ll lr) = BNode m ml mr"
    "bst_in_order (BNode ld ll lr) = m # ys" by blast
  then have "bst_min_value_node (BNode d (BNode ld ll lr) r) = BNode m ml mr \<and>
    bst_in_order (BNode d (BNode ld ll lr) r) = m # (ys @ [d] @ bst_in_order r)"
    by simp
  then show ?case by blast
qed

lemma bst_remove_total: "\<exists>t'. bst_remove t x = Some t'"
proof (induction t arbitrary: x)
  case BNull
  then show ?case by simp
next
  case (BNode d l r)
  obtain l' where l': "bst_remove l x = Some l'" using BNode.IH(1) by blast
  obtain r' where r': "bst_remove r x = Some r'" using BNode.IH(2) by blast
  show ?case
  proof (cases "r = BNull")
    case True
    then show ?thesis using l' by auto
  next
    case False
    then obtain rd rl rr where r: "r = BNode rd rl rr" by (cases r) auto
    obtain m ml mr where m: "bst_min_value_node r = BNode m ml mr"
      using bst_min_value_node_in_order r by blast
    obtain r'' where "bst_remove r m = Some r''" using BNode.IH(2) by blast
    then show ?thesis using l' r' m by auto
  qed
qed

lemma bst_remove_ordered_set:
  "bst_remove t x = Some t' \<Longrightarrow> bst_ordered t \<Longrightarrow>
     bst_ordered t' \<and> set (bst_in_order t') = set (bst_in_order t) - {x}"
proof (induction t arbitrary: x t')
  case BNull
  then show ?case by auto
next
  case (BNode d l r)
  have parts: "bst_ordered l" "bst_ordered r" "\<forall>k \<in> set (bst_in_order l). k < d"
    "\<forall>k \<in> set (bst_in_order r). d < k"
    using BNode.prems(2) by auto
  consider (lt) "x < d" | (gt) "d < x" | (one) "x = d" "l = BNull \<or> r = BNull"
    | (two) "x = d" "l \<noteq> BNull" "r \<noteq> BNull" by fastforce
  then show ?case
  proof cases
    case lt
    with BNode.prems obtain l' where l': "bst_remove l x = Some l'"
      and t': "t' = BNode d l' r"
      by (auto split: bind_splits)
    have IH: "bst_ordered l'" "set (bst_in_order l') = set (bst_in_order l) - {x}"
      using BNode.IH(1)[OF l'] parts(1) by auto
    show ?thesis using IH parts lt t' by auto
  next
    case gt
    with BNode.prems obtain r' where r': "bst_remove r x = Some r'"
      and t': "t' = BNode d l r'"
      by (auto split: bind_splits)
    have IH: "bst_ordered r'" "set (bst_in_order r') = set (bst_in_order r) - {x}"
      using BNode.IH(2)[OF r'] parts(2) by auto
    show ?thesis using IH parts gt t' by auto
  next
    case one
    then have "t' = (if l = BNull then r else l)"
      using BNode.prems(1) by (auto split: if_splits)
    then show ?thesis using parts one by (auto split: if_splits)
  next
    case two
    then obtain rd rl rr where r: "r = BNode rd rl rr" by (cases r) auto
    obtain m ml mr ys where m: "bst_min_value_node r = BNode m ml mr"
      and ys: "bst_in_order r = m # ys"
      using bst_min_value_node_in_order r by blast
    with two BNode.prems(1) obtain r' where r': "bst_remove r m = Some r'"
      and t': "t' = BNode m l r'"
      by (auto split: bind_splits)
    have IH: "bst_ordered r'" "set (bst_in_order r') = set (bst_in_order r) - {m}"
      using BNode.IH(2)[OF r'] parts(2) by auto
    have sr: "sorted_wrt (<) (m # ys)"
      using parts(2) ys bst_ordered_iff_sorted[of r] by simp
    then have r'set: "set (bst_in_order r') = set ys" using IH(2) ys by auto
    have "d < m" using parts(4) ys by simp
    have "bst_ordered (BNode m l r')"
      using parts(1,3) IH(1) r'set sr \<open>d < m\<close> by fastforce
    moreover have "set (bst_in_order (BNode m l r')) = set (bst_in_order (BNode d l r)) - {x}"
      using r'set ys parts(3,4) two(1) sr by auto
    ultimately show ?thesis using t' by simp
  qed
qed

lemma bst_remove_absent: "x \<notin> set (bst_in_order t) \<Longrightarrow> bst_remove t x = Some t"
  by (induction t) auto

lemma bst_search_found:
  "bst_ordered t \<Longrightarrow>
     bst_found (bst_search t x) = (if x \<in> set (bst_in_order t) then Found x else NotFound)"
  by (induction t) force+

subsection \<open>No-ops of the balanced tree\<close>

lemma insert_rebalance_valid: "avl_inv (ANode d l r h) \<Longrightarrow> insert_rebalance (ANode d l r h) x = Some (ANode d l r h)"
  by (auto simp: insert_rebalance_Node)

lemma avl_insert_present:
  "avl_inv t \<Longrightarrow> ordered t \<Longrightarrow> x \<in> set (in_order t) \<Longrightarrow> avl_insert t x = Some t"
proof (induction t)
  case ANull
  then show ?case by simp
next
  case (ANode d l r h)
  consider (lt) "x < d" | (gt) "d < x" | (eq) "x = d" by linarith
  then show ?case
  proof cases
    case lt
    then have "x \<in> set (in_order l)" using ANode.prems(2,3) by force
    then have "avl_insert l x = Some l" using ANode by simp
    then show ?thesis using lt insert_rebalance_valid[OF ANode.prems(1)] by simp
  next
    case gt
    then have "x \<in> set (in_order r)" using ANode.prems(2,3) by force
    then have "avl_insert r x = Some r" using ANode by simp
    then show ?thesis using gt insert_rebalance_valid[OF ANode.prems(1)] by simp
  next
    case eq
    then show ?thesis by simp
  qed
qed

lemma avl_remove_absent:
  "avl_inv t \<Longrightarrow> x \<notin> set (in_order t) \<Longrightarrow> avl_remove t x = Some t"
proof (induction t)
  case ANull
  then show ?case by simp
next
  case (ANode d l r h)
  have "avl_remove l x = Some l" "avl_remove r x = Some r" using ANode by auto
  then show ?case
    using ANode.prems remove_rebalance_valid[OF ANode.prems(1)] by auto
qed

lemma avl_search_found:
  "ordered t \<Longrightarrow>
     avl_found (avl_search t x) = (if x \<in> set (in_order t) then Found x else NotFound)"
  by (induction t) force+

section \<open>Reachable trees\<close>

subsection \<open>Runs of operations\<close>

lemma bst_apply_ordered:
  assumes "bst_ordered t"
  shows "\<exists>t'. bst_apply t p = Some t' \<and> bst_ordered t' \<and>
           set (bst_in_order t') = keys_apply (set (bst_in_order t)) p"
proof (cases p)
  case (Insert x)
  then show ?thesis using assms by (simp add: bst_ordered_insert set_bst_insert)
next
  case (Remove x)
  obtain t' where "bst_remove t x = Some t'" using bst_remove_total by blast
  then show ?thesis using Remove bst_remove_ordered_set[OF _ assms] by simp
next
  case (Search x)
  then show ?thesis using assms by simp
qed

lemma bst_run_ordered:
  "bst_ordered t \<Longrightarrow> \<exists>t'. bst_run t ops = Some t' \<and> bst_ordered t' \<and>
           set (bst_in_order t') = keys_run (set (bst_in_order t)) ops"
proof (induction ops arbitrary: t)
  case Nil
  then show ?case by simp
next
  case (Cons p ps)
  from bst_apply_ordered[OF Cons.prems, of p] obtain t1 where
    t1: "bst_apply t p = Some t1" "bst_ordered t1"
      "set (bst_in_order t1) = keys_apply (set (bst_in_order t)) p" by blast
  from Cons.IH[OF t1(2)] t1(1,3) show ?case by simp
qed

lemma avl_apply_valid:
  assumes "avl_valid t"
  shows "\<exists>t'. avl_apply t p = Some t' \<and> avl_valid t' \<and>
           set (in_order t') = keys_apply (set (in_order t)) p"
proof (cases p)
  case (Insert x)
  obtain t' where t': "avl_insert t x = Some t'" "avl_inv t'"
    using avl_insert_inv assms unfolding avl_valid_def by blast
  then show ?thesis
    using Insert assms ordered_avl_insert[OF t'(1)] set_avl_insert[OF t'(1)]
    by (simp add: avl_valid_def)
next
  case (Remove x)
  obtain t' where t': "avl_remove t x = Some t'" "avl_inv t'"
    using avl_remove_inv assms unfolding avl_valid_def by blast
  then show ?thesis
    using Remove assms avl_remove_ordered_set[OF t'(1)]
    by (simp add: avl_valid_def)
next
  case (Search x)
  then show ?thesis using assms by simp
qed

lemma avl_run_valid:
  "avl_valid t \<Longrightarrow> \<exists>t'. avl_run t ops = Some t' \<and> avl_valid t' \<and>
           set (in_order t') = keys_run (set (in_order t)) ops"
proof (induction ops arbitrary: t)
  case Nil
  then show ?case by simp
next
  case (Cons p ps)
  from avl_apply_valid[OF Cons.prems, of p] obtain t1 where
    t1: "avl_apply t p = Some t1" "avl_valid t1"
      "set (in_order t1) = keys_apply (set (in_order t)) p" by blast
  from Cons.IH[OF t1(2)] t1(1,3) show ?case by simp
qed

lemma avl_valid_Null: "avl_valid ANull"
  by (simp add: avl_valid_def)

lemma avl_run_from_empty:
  "\<exists>t. avl_run ANull ops = Some t \<and> avl_valid t \<and> set (in_order t) = keys_run {} ops"
  using avl_run_valid[OF avl_valid_Null, of ops] by simp

lemma bst_run_from_empty:
  "\<exists>t. bst_run BNull ops = Some t \<and> bst_ordered t \<and> set (bst_in_order t) = keys_run {} ops"
  using bst_run_ordered[of BNull ops] by simp

lemma strict_sorted_distinct: "sorted_wrt (<) (xs :: int list) \<Longrightarrow> distinct xs"
  by (simp add: strict_sorted_iff)

subsection \<open>Heights\<close>

lemma avl_inv_tree_height: "avl_inv t \<Longrightarrow> height t = tree_height t"
  by (induction t) auto

lemma avl_inv_nodes: "avl_inv t \<Longrightarrow> n \<in> set (nodes t) \<Longrightarrow> avl_inv n"
  by (induction t) auto

text \<open>
  Claim C1. After any finite sequence of operations on an initially empty tree, plain or
  self-balancing, the operations all return and the in-order traversal of the resulting
  tree is strictly ascending, so no key appears twice.
\<close>
theorem in_order_strictly_ascending:
  "(\<exists>t. bst_run BNull ops = Some t \<and> sorted_wrt (<) (bst_in_order t) \<and> distinct (bst_in_order t)) \<and>
   (\<exists>t. avl_run ANull ops = Some t \<and> sorted_wrt (<) (in_order t) \<and> distinct (in_order t))"
proof
  obtain t where "bst_run BNull ops = Some t" "bst_ordered t"
    using bst_run_from_empty by blast
  then show "\<exists>t. bst_run BNull ops = Some t \<and> sorted_wrt (<) (bst_in_order t) \<and> distinct (bst_in_order t)"
    using bst_ordered_iff_sorted strict_sorted_distinct by blast
next
  obtain t where "avl_run ANull ops = Some t" "avl_valid t"
    using avl_run_from_empty by blast
  then show "\<exists>t. avl_run ANull ops = Some t \<and> sorted_wrt (<) (in_order t) \<and> distinct (in_order t)"
    using ordered_iff_sorted strict_sorted_distinct unfolding avl_valid_def by blast
qed

lemma run_1_2_3:
  "avl_run ANull [Insert 1, Insert 2, Insert 3] =
     Some (ANode 2 (ANode 1 ANull ANull 1) (ANode 3 ANull ANull 1) 2)"
  by (simp add: insert_rebalance_Node)

text \<open>
  Claim C2. After any finite sequence of operations on an initially empty self-balancing
  tree, the heights of the two subtrees of every node differ by at most one. This holds for
  the true heights and for the stored ones that \<^verbatim>\<open>balance_factor\<close> reads. Every prefix of
  a sequence is a sequence, so it holds after each operation.
\<close>
theorem balance_after_every_operation:
  "\<exists>t. avl_run ANull ops = Some t \<and>
     (\<forall>d l r h. ANode d l r h \<in> set (nodes t) \<longrightarrow>
        \<bar>tree_height l - tree_height r\<bar> \<le> 1 \<and> \<bar>height l - height r\<bar> \<le> 1)"
proof -
  obtain t where t: "avl_run ANull ops = Some t" "avl_valid t"
    using avl_run_from_empty by blast
  have "\<bar>tree_height l - tree_height r\<bar> \<le> 1 \<and> \<bar>height l - height r\<bar> \<le> 1"
    if "ANode d l r h \<in> set (nodes t)" for d l r h
  proof -
    have "avl_inv (ANode d l r h)" using avl_inv_nodes t(2) that unfolding avl_valid_def by blast
    then show ?thesis using avl_inv_tree_height[of l] avl_inv_tree_height[of r] by auto
  qed
  then show ?thesis using t(1) by blast
qed

theorem balance_after_every_operation_witness:
  "avl_run ANull [Insert 1, Insert 2, Insert 3] =
     Some (ANode 2 (ANode 1 ANull ANull 1) (ANode 3 ANull ANull 1) 2) \<and>
   ANode 2 (ANode 1 ANull ANull 1) (ANode 3 ANull ANull 1) 2 \<in>
     set (nodes (ANode 2 (ANode 1 ANull ANull 1) (ANode 3 ANull ANull 1) 2)) \<and>
   \<bar>tree_height (ANode 1 ANull ANull 1) - tree_height (ANode 3 ANull ANull 1)\<bar> \<le> 1 \<and>
   \<bar>height (ANode 1 ANull ANull 1) - height (ANode 3 ANull ANull 1)\<bar> \<le> 1"
proof -
  obtain t where t: "avl_run ANull [Insert 1, Insert 2, Insert 3] = Some t"
    and all: "\<forall>d l r h. ANode d l r h \<in> set (nodes t) \<longrightarrow>
        \<bar>tree_height l - tree_height r\<bar> \<le> 1 \<and> \<bar>height l - height r\<bar> \<le> 1"
    using balance_after_every_operation[of "[Insert 1, Insert 2, Insert 3]"] by blast
  have eq: "t = ANode 2 (ANode 1 ANull ANull 1) (ANode 3 ANull ANull 1) 2"
    using t run_1_2_3 by simp
  have mem: "ANode 2 (ANode 1 ANull ANull 1) (ANode 3 ANull ANull 1) 2 \<in> set (nodes t)"
    by (simp add: eq)
  from all mem have
    "\<bar>tree_height (ANode 1 ANull ANull 1) - tree_height (ANode 3 ANull ANull 1)\<bar> \<le> 1 \<and>
     \<bar>height (ANode 1 ANull ANull 1) - height (ANode 3 ANull ANull 1)\<bar> \<le> 1"
    by blast
  then show ?thesis using run_1_2_3 mem eq by blast
qed

text \<open>
  Claim C5. In every self-balancing tree reached from the empty one, the stored height of
  every node is one more than the larger of its children's heights (0 for an absent child),
  which is its true height; a leaf has stored height 1.
\<close>
theorem stored_heights_are_right:
  "\<exists>t. avl_run ANull ops = Some t \<and>
     (\<forall>d l r h. ANode d l r h \<in> set (nodes t) \<longrightarrow>
        h = 1 + max (height l) (height r) \<and> h = tree_height (ANode d l r h) \<and>
        (l = ANull \<and> r = ANull \<longrightarrow> h = 1))"
proof -
  obtain t where t: "avl_run ANull ops = Some t" "avl_valid t"
    using avl_run_from_empty by blast
  have "h = 1 + max (height l) (height r) \<and> h = tree_height (ANode d l r h) \<and>
        (l = ANull \<and> r = ANull \<longrightarrow> h = 1)"
    if "ANode d l r h \<in> set (nodes t)" for d l r h
  proof -
    have "avl_inv (ANode d l r h)" using avl_inv_nodes t(2) that unfolding avl_valid_def by blast
    then show ?thesis using avl_inv_tree_height[of "ANode d l r h"] by auto
  qed
  then show ?thesis using t(1) by blast
qed

theorem stored_heights_are_right_witness:
  "avl_run ANull [Insert 1, Insert 2, Insert 3] =
     Some (ANode 2 (ANode 1 ANull ANull 1) (ANode 3 ANull ANull 1) 2) \<and>
   ANode 2 (ANode 1 ANull ANull 1) (ANode 3 ANull ANull 1) 2 \<in>
     set (nodes (ANode 2 (ANode 1 ANull ANull 1) (ANode 3 ANull ANull 1) 2)) \<and>
   ANode 3 ANull ANull 1 \<in>
     set (nodes (ANode 2 (ANode 1 ANull ANull 1) (ANode 3 ANull ANull 1) 2)) \<and>
   (2::int) = 1 + max (height (ANode 1 ANull ANull 1)) (height (ANode 3 ANull ANull 1)) \<and>
   (2::int) = tree_height (ANode 2 (ANode 1 ANull ANull 1) (ANode 3 ANull ANull 1) 2) \<and>
   (1::int) = 1 + max (height ANull) (height ANull)"
proof -
  obtain t where t: "avl_run ANull [Insert 1, Insert 2, Insert 3] = Some t"
    and all: "\<forall>d l r h. ANode d l r h \<in> set (nodes t) \<longrightarrow>
        h = 1 + max (height l) (height r) \<and> h = tree_height (ANode d l r h) \<and>
        (l = ANull \<and> r = ANull \<longrightarrow> h = 1)"
    using stored_heights_are_right[of "[Insert 1, Insert 2, Insert 3]"] by blast
  have eq: "t = ANode 2 (ANode 1 ANull ANull 1) (ANode 3 ANull ANull 1) 2"
    using t run_1_2_3 by simp
  have mem: "ANode 2 (ANode 1 ANull ANull 1) (ANode 3 ANull ANull 1) 2 \<in> set (nodes t)"
    "ANode 3 ANull ANull 1 \<in> set (nodes t)"
    by (simp_all add: eq)
  from all mem(1) have
    "(2::int) = 1 + max (height (ANode 1 ANull ANull 1)) (height (ANode 3 ANull ANull 1)) \<and>
     (2::int) = tree_height (ANode 2 (ANode 1 ANull ANull 1) (ANode 3 ANull ANull 1) 2)"
    by blast
  moreover from all mem(2) have "(1::int) = 1 + max (height ANull) (height ANull)"
    by blast
  ultimately show ?thesis using run_1_2_3 mem eq by blast
qed

section \<open>What insert and remove do to the in-order sequence\<close>

lemma bst_insert_in_order:
  assumes "bst_ordered t" "x \<notin> set (bst_in_order t)"
  shows "bst_in_order (bst_insert t x) = insort x (bst_in_order t)"
proof (rule strict_sorted_unique)
  show "sorted_wrt (<) (bst_in_order (bst_insert t x))"
    using bst_ordered_insert[OF assms(1)] bst_ordered_iff_sorted by blast
  show "sorted_wrt (<) (insort x (bst_in_order t))"
    using assms bst_ordered_iff_sorted strict_sorted_insort by blast
  show "set (bst_in_order (bst_insert t x)) = set (insort x (bst_in_order t))"
    by (simp add: set_bst_insert set_insort_key)
qed

lemma avl_insert_in_order:
  assumes "avl_insert t x = Some t'" "ordered t" "x \<notin> set (in_order t)"
  shows "in_order t' = insort x (in_order t)"
proof (rule strict_sorted_unique)
  show "sorted_wrt (<) (in_order t')"
    using ordered_avl_insert[OF assms(1,2)] ordered_iff_sorted by blast
  show "sorted_wrt (<) (insort x (in_order t))"
    using assms(2,3) ordered_iff_sorted strict_sorted_insort by blast
  show "set (in_order t') = set (insort x (in_order t))"
    by (simp add: set_avl_insert[OF assms(1)] set_insort_key)
qed

lemma bst_remove_in_order:
  assumes "bst_remove t x = Some t'" "bst_ordered t"
  shows "bst_in_order t' = remove1 x (bst_in_order t)"
proof (rule strict_sorted_unique)
  have s: "sorted_wrt (<) (bst_in_order t)" using assms(2) bst_ordered_iff_sorted by blast
  show "sorted_wrt (<) (bst_in_order t')"
    using bst_remove_ordered_set[OF assms] bst_ordered_iff_sorted by blast
  show "sorted_wrt (<) (remove1 x (bst_in_order t))"
    using s by (rule strict_sorted_remove1)
  show "set (bst_in_order t') = set (remove1 x (bst_in_order t))"
    using bst_remove_ordered_set[OF assms] strict_sorted_set_remove1[OF s] by simp
qed

lemma avl_remove_in_order:
  assumes "avl_remove t x = Some t'" "ordered t"
  shows "in_order t' = remove1 x (in_order t)"
proof (rule strict_sorted_unique)
  have s: "sorted_wrt (<) (in_order t)" using assms(2) ordered_iff_sorted by blast
  show "sorted_wrt (<) (in_order t')"
    using avl_remove_ordered_set[OF assms] ordered_iff_sorted by blast
  show "sorted_wrt (<) (remove1 x (in_order t))"
    using s by (rule strict_sorted_remove1)
  show "set (in_order t') = set (remove1 x (in_order t))"
    using avl_remove_ordered_set[OF assms] strict_sorted_set_remove1[OF s] by simp
qed

text \<open>
  Claim C3. On a valid tree (ordered; for the self-balancing one also with right stored
  heights and balanced), inserting an absent key gives the in-order sequence with the key
  inserted at its sorted place, and inserting a present key returns the very same tree,
  stored heights included.
\<close>
theorem insert_adds_key_or_changes_nothing:
  assumes "bst_ordered tb" and "avl_valid ta"
  shows "(k \<notin> set (bst_in_order tb) \<longrightarrow>
            bst_in_order (bst_insert tb k) = insort k (bst_in_order tb)) \<and>
         (k \<in> set (bst_in_order tb) \<longrightarrow> bst_insert tb k = tb) \<and>
         (\<exists>ta'. avl_insert ta k = Some ta' \<and>
            (k \<notin> set (in_order ta) \<longrightarrow> in_order ta' = insort k (in_order ta)) \<and>
            (k \<in> set (in_order ta) \<longrightarrow> ta' = ta))"
proof -
  have inv: "avl_inv ta" and ord: "ordered ta" using assms(2) by (simp_all add: avl_valid_def)
  obtain ta' where ta': "avl_insert ta k = Some ta'" using avl_insert_inv[OF inv] by blast
  have "in_order ta' = insort k (in_order ta)" if "k \<notin> set (in_order ta)"
    using avl_insert_in_order[OF ta' ord that] .
  moreover have "ta' = ta" if "k \<in> set (in_order ta)"
    using avl_insert_present[OF inv ord that] ta' by simp
  ultimately show ?thesis
    using ta' bst_insert_in_order[OF assms(1)] bst_insert_present[OF assms(1)] by blast
qed

theorem insert_adds_key_or_changes_nothing_witness:
  "bst_ordered (BNode 2 (BNode 1 BNull BNull) (BNode 3 BNull BNull)) \<and>
   avl_valid (ANode 2 (ANode 1 ANull ANull 1) (ANode 3 ANull ANull 1) 2) \<and>
   bst_in_order (bst_insert (BNode 2 (BNode 1 BNull BNull) (BNode 3 BNull BNull)) 4) = [1, 2, 3, 4] \<and>
   bst_insert (BNode 2 (BNode 1 BNull BNull) (BNode 3 BNull BNull)) 3 =
     BNode 2 (BNode 1 BNull BNull) (BNode 3 BNull BNull) \<and>
   (\<exists>ta'. avl_insert (ANode 2 (ANode 1 ANull ANull 1) (ANode 3 ANull ANull 1) 2) 4 = Some ta' \<and>
       in_order ta' = [1, 2, 3, 4]) \<and>
   avl_insert (ANode 2 (ANode 1 ANull ANull 1) (ANode 3 ANull ANull 1) 2) 3 =
     Some (ANode 2 (ANode 1 ANull ANull 1) (ANode 3 ANull ANull 1) 2)"
proof -
  have b: "bst_ordered (BNode 2 (BNode 1 BNull BNull) (BNode 3 BNull BNull))" by simp
  have a: "avl_valid (ANode 2 (ANode 1 ANull ANull 1) (ANode 3 ANull ANull 1) 2)"
    by (simp add: avl_valid_def)
  show ?thesis
    using a b insert_adds_key_or_changes_nothing[OF b a, of 4]
      insert_adds_key_or_changes_nothing[OF b a, of 3]
    by auto
qed

text \<open>
  Claim C4. On a valid tree, removing a present key gives the in-order sequence without
  that key, and removing an absent key returns the very same tree, stored heights included.
\<close>
theorem remove_deletes_key_or_changes_nothing:
  assumes "bst_ordered tb" and "avl_valid ta"
  shows "(\<exists>tb'. bst_remove tb k = Some tb' \<and>
            (k \<in> set (bst_in_order tb) \<longrightarrow> bst_in_order tb' = remove1 k (bst_in_order tb)) \<and>
            (k \<notin> set (bst_in_order tb) \<longrightarrow> tb' = tb)) \<and>
         (\<exists>ta'. avl_remove ta k = Some ta' \<and>
            (k \<in> set (in_order ta) \<longrightarrow> in_order ta' = remove1 k (in_order ta)) \<and>
            (k \<notin> set (in_order ta) \<longrightarrow> ta' = ta))"
proof
  obtain tb' where tb': "bst_remove tb k = Some tb'" using bst_remove_total by blast
  have "tb' = tb" if "k \<notin> set (bst_in_order tb)"
    using bst_remove_absent[OF that] tb' by simp
  then show "\<exists>tb'. bst_remove tb k = Some tb' \<and>
            (k \<in> set (bst_in_order tb) \<longrightarrow> bst_in_order tb' = remove1 k (bst_in_order tb)) \<and>
            (k \<notin> set (bst_in_order tb) \<longrightarrow> tb' = tb)"
    using tb' bst_remove_in_order[OF tb' assms(1)] by blast
next
  have inv: "avl_inv ta" and ord: "ordered ta" using assms(2) by (simp_all add: avl_valid_def)
  obtain ta' where ta': "avl_remove ta k = Some ta'" using avl_remove_inv[OF inv] by blast
  have "ta' = ta" if "k \<notin> set (in_order ta)"
    using avl_remove_absent[OF inv that] ta' by simp
  then show "\<exists>ta'. avl_remove ta k = Some ta' \<and>
            (k \<in> set (in_order ta) \<longrightarrow> in_order ta' = remove1 k (in_order ta)) \<and>
            (k \<notin> set (in_order ta) \<longrightarrow> ta' = ta)"
    using ta' avl_remove_in_order[OF ta' ord] by blast
qed

theorem remove_deletes_key_or_changes_nothing_witness:
  "bst_ordered (BNode 2 (BNode 1 BNull BNull) (BNode 3 BNull BNull)) \<and>
   avl_valid (ANode 2 (ANode 1 ANull ANull 1) (ANode 3 ANull ANull 1) 2) \<and>
   (\<exists>tb'. bst_remove (BNode 2 (BNode 1 BNull BNull) (BNode 3 BNull BNull)) 2 = Some tb' \<and>
       bst_in_order tb' = [1, 3]) \<and>
   bst_remove (BNode 2 (BNode 1 BNull BNull) (BNode 3 BNull BNull)) 4 =
     Some (BNode 2 (BNode 1 BNull BNull) (BNode 3 BNull BNull)) \<and>
   (\<exists>ta'. avl_remove (ANode 2 (ANode 1 ANull ANull 1) (ANode 3 ANull ANull 1) 2) 2 = Some ta' \<and>
       in_order ta' = [1, 3]) \<and>
   avl_remove (ANode 2 (ANode 1 ANull ANull 1) (ANode 3 ANull ANull 1) 2) 4 =
     Some (ANode 2 (ANode 1 ANull ANull 1) (ANode 3 ANull ANull 1) 2)"
proof -
  have b: "bst_ordered (BNode 2 (BNode 1 BNull BNull) (BNode 3 BNull BNull))" by simp
  have a: "avl_valid (ANode 2 (ANode 1 ANull ANull 1) (ANode 3 ANull ANull 1) 2)"
    by (simp add: avl_valid_def)
  show ?thesis
    using a b remove_deletes_key_or_changes_nothing[OF b a, of 2]
      remove_deletes_key_or_changes_nothing[OF b a, of 4]
    by auto
qed

lemma rotate_right_fails_iff:
  "rotate_right n = None \<longleftrightarrow> n = ANull \<or> left_of n = Some ANull"
  by (cases n; cases "the (left_of n)") auto

lemma rotate_left_fails_iff:
  "rotate_left n = None \<longleftrightarrow> n = ANull \<or> right_of n = Some ANull"
  by (cases n; cases "the (right_of n)") auto

text \<open>
  Claim C6. A rotation yields \<open>None\<close> exactly when its node or the child it promotes
  is absent, and \<open>None\<close>, like that of any other read through \<^verbatim>\<open>nullptr\<close>, is passed
  on by every caller up to the public operation. On every tree reached from the empty one,
  \<^verbatim>\<open>insert\<close> and \<^verbatim>\<open>remove\<close> of any key return a tree: each rotation they invoke
  finds its child.
\<close>
theorem rotations_find_their_child:
  "(\<exists>t. avl_run ANull ops = Some t \<and> avl_insert t x \<noteq> None \<and> avl_remove t x \<noteq> None) \<and>
   (rotate_right n = None \<longleftrightarrow> n = ANull \<or> left_of n = Some ANull) \<and>
   (rotate_left n = None \<longleftrightarrow> n = ANull \<or> right_of n = Some ANull)"
proof -
  obtain t where t: "avl_run ANull ops = Some t" "avl_valid t"
    using avl_run_from_empty by blast
  then have "avl_inv t" by (simp add: avl_valid_def)
  then have "avl_insert t x \<noteq> None \<and> avl_remove t x \<noteq> None"
    using avl_insert_inv[of t x] avl_remove_inv[of t x] by fastforce
  then show ?thesis
    using t(1) rotate_right_fails_iff[of n] rotate_left_fails_iff[of n] by blast
qed

lemma keys_run_append: "keys_run S (ps @ qs) = keys_run (keys_run S ps) qs"
  by (induction ps arbitrary: S) auto

lemma keys_run_inserts: "keys_run S (map Insert ks) = S \<union> set ks"
  by (induction ks arbitrary: S) auto

lemma keys_run_removes: "keys_run S (map Remove rs) = S - set rs"
  by (induction rs arbitrary: S) auto

text \<open>
  Claim C7. Inserting keys into an empty tree, in any order, and then removing the same
  set of keys, in any order, leaves the empty tree, for both variants.
\<close>
theorem insert_all_remove_all_is_empty:
  assumes "set rs = set ks"
  shows "bst_run BNull (map Insert ks @ map Remove rs) = Some BNull \<and>
         avl_run ANull (map Insert ks @ map Remove rs) = Some ANull"
proof -
  have k: "keys_run {} (map Insert ks @ map Remove rs) = {}"
    using assms by (simp add: keys_run_append keys_run_inserts keys_run_removes)
  obtain tb where tb: "bst_run BNull (map Insert ks @ map Remove rs) = Some tb"
    "set (bst_in_order tb) = {}"
    using bst_run_from_empty[of "map Insert ks @ map Remove rs"] k by auto
  obtain ta where ta: "avl_run ANull (map Insert ks @ map Remove rs) = Some ta"
    "set (in_order ta) = {}"
    using avl_run_from_empty[of "map Insert ks @ map Remove rs"] k by auto
  have "tb = BNull" using tb(2) bst_in_order_Nil by simp
  moreover have "ta = ANull" using ta(2) in_order_Nil by simp
  ultimately show ?thesis using tb(1) ta(1) by simp
qed

theorem insert_all_remove_all_is_empty_witness:
  "set [2, 3, 1 :: int] = set [1, 2, 3] \<and>
   bst_run BNull (map Insert [1, 2, 3] @ map Remove [2, 3, 1]) = Some BNull \<and>
   avl_run ANull (map Insert [1, 2, 3] @ map Remove [2, 3, 1]) = Some ANull"
proof -
  have h: "set [2, 3, 1 :: int] = set [1, 2, 3]" by auto
  show ?thesis using h insert_all_remove_all_is_empty[OF h] by blast
qed

subsection \<open>The two trees side by side\<close>

lemma traces_agree:
  assumes "bst_ordered tb" "avl_valid ta" "bst_in_order tb = in_order ta"
  shows "bst_trace tb ops = avl_trace ta ops \<and>
         (\<exists>tr. avl_trace ta ops = Some tr \<and> length tr = length ops)"
  using assms
proof (induction ops arbitrary: tb ta)
  case Nil
  then show ?case by simp
next
  case (Cons p ps)
  from bst_apply_ordered[OF Cons.prems(1), of p] obtain tb' where
    tb': "bst_apply tb p = Some tb'" "bst_ordered tb'"
      "set (bst_in_order tb') = keys_apply (set (bst_in_order tb)) p" by blast
  from avl_apply_valid[OF Cons.prems(2), of p] obtain ta' where
    ta': "avl_apply ta p = Some ta'" "avl_valid ta'"
      "set (in_order ta') = keys_apply (set (in_order ta)) p" by blast
  have "sorted_wrt (<) (bst_in_order tb')" using tb'(2) bst_ordered_iff_sorted by blast
  moreover have "sorted_wrt (<) (in_order ta')"
    using ta'(2) ordered_iff_sorted unfolding avl_valid_def by blast
  ultimately have eq: "bst_in_order tb' = in_order ta'"
    using tb'(3) ta'(3) Cons.prems(3) by (intro strict_sorted_unique) simp_all
  have "ordered ta" using Cons.prems(2) by (simp add: avl_valid_def)
  then have ans: "bst_answer tb p = avl_answer ta p"
    using Cons.prems(1,3) by (cases p) (simp_all add: bst_search_found avl_search_found)
  from Cons.IH[OF tb'(2) ta'(2) eq] obtain tr where
    "bst_trace tb' ps = avl_trace ta' ps" "avl_trace ta' ps = Some tr" "length tr = length ps"
    by blast
  then show ?case using tb'(1) ta'(1) eq ans by simp
qed

text \<open>
  Claim C9. For every finite sequence of insert, remove and search operations from the empty
  tree, the plain and the self-balancing tree give the same observations: the same in-order
  sequence after each operation and the same answer to each search (not found, or found
  with the same key). Both runs return, with one observation per operation.
\<close>
theorem plain_and_balanced_tree_observably_equal:
  "bst_trace BNull ops = avl_trace ANull ops \<and>
   (\<exists>tr. avl_trace ANull ops = Some tr \<and> length tr = length ops)"
  by (rule traces_agree) (simp_all add: avl_valid_def)

subsection \<open>Positions\<close>

lemma bst_key_at_insert:
  "x \<notin> set (bst_in_order t) \<Longrightarrow>
     bst_key_at (bst_insert t x) p = (if p = bst_descent t x then Some x else bst_key_at t p)"
proof (induction t arbitrary: p)
  case BNull
  show ?case
  proof (cases p)
    case Nil
    then show ?thesis by simp
  next
    case (Cons q qs)
    then show ?thesis by (cases q) simp_all
  qed
next
  case (BNode d l r)
  show ?case
  proof (cases p)
    case Nil
    then show ?thesis using BNode.prems by auto
  next
    case (Cons q qs)
    then show ?thesis using BNode by (cases q) auto
  qed
qed

lemma bst_subtree_descent:
  "x \<notin> set (bst_in_order t) \<Longrightarrow>
     bst_subtree t (bst_descent t x) = Some BNull \<and>
     bst_subtree (bst_insert t x) (bst_descent t x) = Some (BNode x BNull BNull)"
  by (induction t) auto

text \<open>
  Claim C10. Inserting a key that is not in the plain tree puts one new leaf holding the key
  at the position the descent reaches, which was vacant, and leaves the key at every other
  position as it was.
\<close>
theorem bst_insert_adds_one_leaf:
  assumes "x \<notin> set (bst_in_order t)"
  shows "bst_subtree t (bst_descent t x) = Some BNull \<and>
         bst_subtree (bst_insert t x) (bst_descent t x) = Some (BNode x BNull BNull) \<and>
         bst_key_at (bst_insert t x) = (bst_key_at t)(bst_descent t x \<mapsto> x)"
  using bst_subtree_descent[OF assms] bst_key_at_insert[OF assms] by auto

theorem bst_insert_adds_one_leaf_witness:
  "(4::int) \<notin> set (bst_in_order (BNode 5 (BNode 3 BNull BNull) BNull)) \<and>
   bst_descent (BNode 5 (BNode 3 BNull BNull) BNull) 4 = [L, R] \<and>
   bst_subtree (BNode 5 (BNode 3 BNull BNull) BNull) [L, R] = Some BNull \<and>
   bst_subtree (bst_insert (BNode 5 (BNode 3 BNull BNull) BNull) 4) [L, R] = Some (BNode 4 BNull BNull) \<and>
   bst_key_at (bst_insert (BNode 5 (BNode 3 BNull BNull) BNull) 4) =
     (bst_key_at (BNode 5 (BNode 3 BNull BNull) BNull))([L, R] \<mapsto> 4)"
proof -
  have h: "(4::int) \<notin> set (bst_in_order (BNode 5 (BNode 3 BNull BNull) BNull))" by simp
  have d: "bst_descent (BNode 5 (BNode 3 BNull BNull) BNull) 4 = [L, R]" by simp
  show ?thesis using h d bst_insert_adds_one_leaf[OF h] by (simp only: d) simp
qed

subsection \<open>The scenario of main\<close>

lemma insert_rebalance_counted_fst:
  "map_option fst (insert_rebalance_counted n x) = insert_rebalance n x"
  unfolding insert_rebalance_counted_def insert_rebalance_def
  by (auto simp: Let_def split: bind_splits option.splits if_splits)

lemma avl_insert_counted_fst:
  "map_option fst (avl_insert_counted t x) = avl_insert t x"
proof (induction t)
  case ANull
  then show ?case by simp
next
  case (ANode d l r h)
  have reb: "map_option fst (insert_rebalance_counted n x \<bind> (\<lambda>(t, m). Some (t, k + m))) =
      insert_rebalance n x" for n k
    using insert_rebalance_counted_fst[of n x]
    by (cases "insert_rebalance_counted n x") auto
  show ?case
  proof (cases "x < d")
    case True
    have "avl_insert l x = map_option fst (avl_insert_counted l x)"
      using ANode.IH(1) by simp
    then show ?thesis using True reb
      by (cases "avl_insert_counted l x") auto
  next
    case False
    have "avl_insert r x = map_option fst (avl_insert_counted r x)"
      using ANode.IH(2) by simp
    then show ?thesis using False reb
      by (cases "avl_insert_counted r x") auto
  qed
qed

lemma avl_inserts_counted_fst:
  "map_option fst (avl_inserts_counted t xs) = avl_run t (map Insert xs)"
proof (induction xs arbitrary: t)
  case Nil
  then show ?case by simp
next
  case (Cons x xs)
  show ?case
  proof (cases "avl_insert_counted t x")
    case None
    then show ?thesis using avl_insert_counted_fst[of t x] by simp
  next
    case (Some a)
    obtain t1 n where a: "a = (t1, n)" by (cases a)
    have "avl_insert t x = Some t1" using avl_insert_counted_fst[of t x] Some a by simp
    then show ?thesis using Some a Cons.IH[of t1]
      by (cases "avl_inserts_counted t1 xs") auto
  qed
qed

text \<open>
  Claim C8, as the code has it. Inserting 30, 20, 40, 10, 25, 35, 50 and then 5 into the
  empty self-balancing tree performs no rotation at any of the eight insertions, and the
  root is 30 after each of them. The first seven give the perfect tree with root 30.
  After the insertion of 5 the in-order sequence is 5, 10, 20, 25, 30, 35, 40, 50, and the
  tree is balanced with right stored heights (the balance factors of its nodes, root
  first, are 1, 1, 1, 0, 0, 0, 0, 0).
\<close>
theorem main_scenario_insert_5:
  "avl_inserts_counted ANull [30] = Some (ANode 30 ANull ANull 1, 0) \<and>
   avl_inserts_counted ANull [30, 20] = Some (ANode 30 (ANode 20 ANull ANull 1) ANull 2, 0) \<and>
   avl_inserts_counted ANull [30, 20, 40] =
     Some (ANode 30 (ANode 20 ANull ANull 1) (ANode 40 ANull ANull 1) 2, 0) \<and>
   avl_inserts_counted ANull [30, 20, 40, 10] =
     Some (ANode 30 (ANode 20 (ANode 10 ANull ANull 1) ANull 2) (ANode 40 ANull ANull 1) 3, 0) \<and>
   avl_inserts_counted ANull [30, 20, 40, 10, 25] =
     Some (ANode 30 (ANode 20 (ANode 10 ANull ANull 1) (ANode 25 ANull ANull 1) 2)
                    (ANode 40 ANull ANull 1) 3, 0) \<and>
   avl_inserts_counted ANull [30, 20, 40, 10, 25, 35] =
     Some (ANode 30 (ANode 20 (ANode 10 ANull ANull 1) (ANode 25 ANull ANull 1) 2)
                    (ANode 40 (ANode 35 ANull ANull 1) ANull 2) 3, 0) \<and>
   avl_inserts_counted ANull [30, 20, 40, 10, 25, 35, 50] =
     Some (ANode 30 (ANode 20 (ANode 10 ANull ANull 1) (ANode 25 ANull ANull 1) 2)
                    (ANode 40 (ANode 35 ANull ANull 1) (ANode 50 ANull ANull 1) 2) 3, 0) \<and>
   avl_insert_counted
     (ANode 30 (ANode 20 (ANode 10 ANull ANull 1) (ANode 25 ANull ANull 1) 2)
               (ANode 40 (ANode 35 ANull ANull 1) (ANode 50 ANull ANull 1) 2) 3) 5 =
     Some (ANode 30 (ANode 20 (ANode 10 (ANode 5 ANull ANull 1) ANull 2) (ANode 25 ANull ANull 1) 3)
                    (ANode 40 (ANode 35 ANull ANull 1) (ANode 50 ANull ANull 1) 2) 4, 0) \<and>
   avl_inserts_counted ANull [30, 20, 40, 10, 25, 35, 50, 5] =
     Some (ANode 30 (ANode 20 (ANode 10 (ANode 5 ANull ANull 1) ANull 2) (ANode 25 ANull ANull 1) 3)
                    (ANode 40 (ANode 35 ANull ANull 1) (ANode 50 ANull ANull 1) 2) 4, 0) \<and>
   avl_run ANull (map Insert [30, 20, 40, 10, 25, 35, 50, 5]) =
     Some (ANode 30 (ANode 20 (ANode 10 (ANode 5 ANull ANull 1) ANull 2) (ANode 25 ANull ANull 1) 3)
                    (ANode 40 (ANode 35 ANull ANull 1) (ANode 50 ANull ANull 1) 2) 4) \<and>
   data_of (ANode 30 (ANode 20 (ANode 10 (ANode 5 ANull ANull 1) ANull 2) (ANode 25 ANull ANull 1) 3)
                    (ANode 40 (ANode 35 ANull ANull 1) (ANode 50 ANull ANull 1) 2) 4) = Some 30 \<and>
   in_order (ANode 30 (ANode 20 (ANode 10 (ANode 5 ANull ANull 1) ANull 2) (ANode 25 ANull ANull 1) 3)
                    (ANode 40 (ANode 35 ANull ANull 1) (ANode 50 ANull ANull 1) 2) 4) =
     [5, 10, 20, 25, 30, 35, 40, 50] \<and>
   avl_inv (ANode 30 (ANode 20 (ANode 10 (ANode 5 ANull ANull 1) ANull 2) (ANode 25 ANull ANull 1) 3)
                    (ANode 40 (ANode 35 ANull ANull 1) (ANode 50 ANull ANull 1) 2) 4) \<and>
   map balance_factor
     (nodes (ANode 30 (ANode 20 (ANode 10 (ANode 5 ANull ANull 1) ANull 2) (ANode 25 ANull ANull 1) 3)
                    (ANode 40 (ANode 35 ANull ANull 1) (ANode 50 ANull ANull 1) 2) 4)) =
     [1, 1, 1, 0, 0, 0, 0, 0]"
  by (simp add: insert_rebalance_counted_def insert_rebalance_def rotate_right_def rotate_left_def)

text \<open>
  The claim says the insertion of 5 triggers one rotation. In the tree of the seven earlier
  insertions it triggers none, so the count is not 1.
\<close>
theorem main_scenario_one_rotation_counterexample:
  "avl_run ANull (map Insert [30, 20, 40, 10, 25, 35, 50]) =
     Some (ANode 30 (ANode 20 (ANode 10 ANull ANull 1) (ANode 25 ANull ANull 1) 2)
                    (ANode 40 (ANode 35 ANull ANull 1) (ANode 50 ANull ANull 1) 2) 3) \<and>
   map_option snd (avl_insert_counted
     (ANode 30 (ANode 20 (ANode 10 ANull ANull 1) (ANode 25 ANull ANull 1) 2)
               (ANode 40 (ANode 35 ANull ANull 1) (ANode 50 ANull ANull 1) 2) 3) 5) \<noteq> Some 1"
  by (simp add: insert_rebalance_counted_def insert_rebalance_def)

end
